theory Spec2Isabelle
  imports Main "HOL-Library.Sublist"
begin

section \<open>The recording screen of BioChallengeAuditiva (HomeScreen, src/frontend/App.js)\<close>

text \<open>
  The component keeps five state hooks (lines 126-130) and six functions. Every function
  is a closure of one render: what it reads (\<open>recording\<close>, \<open>audioQueue\<close>,
  \<open>isProcessing\<close>) are the values of that render, while its setter calls act on the
  hook state current when they run. So each function below takes the render it closes
  over (\<open>v\<close>) and the hook state at the moment its setters run (\<open>s\<close>). A setter called
  with a value overwrites the hook; a setter called with an updater function
  (\<open>prev => ...\<close>) is applied to the current hook.

  An \<open>await\<close> suspends the function; other handlers may run before it resumes. The
  asynchronous functions are therefore cut at their awaits.
\<close>

subsection \<open>Values\<close>

text \<open>
  What a field of a response body can hold under the service contract: a string, null, or
  nothing at all (reading an absent field gives \<open>undefined\<close>).
\<close>

datatype jsval = Undefined | Null | Str string

text \<open>The test of \<open>if (transcription)\<close>: \<open>undefined\<close>, \<open>null\<close> and \<open>""\<close> are falsy.\<close>

fun truthy :: "jsval \<Rightarrow> bool" where
  "truthy Undefined = False"
| "truthy Null = False"
| "truthy (Str t) = (t \<noteq> [])"

text \<open>A promise settles: it is fulfilled with a value, or rejected (the await throws).\<close>

datatype 'a settled = Fulfilled 'a | Rejected

datatype permission = Granted | Denied | Undetermined

text \<open>The object of expo-av that \<open>Audio.Recording.createAsync\<close> returns.\<close>

datatype handle = Recording (getURI: string)

text \<open>One element of the display list, \<open>{ text: ..., analysis: ... }\<close> (line 227).\<close>

record entry =
  text' :: jsval
  analysis :: jsval

text \<open>The hooks of lines 126-130.\<close>

record home =
  recording :: "handle option"
  isRecording :: bool
  transcriptions :: "entry list"
  audioQueue :: "string list"
  isProcessing :: bool

definition init :: home where
  "init = \<lparr>recording = None, isRecording = False, transcriptions = [],
           audioQueue = [], isProcessing = False\<rparr>"

subsection \<open>The recorder (lines 152-205)\<close>

text \<open>
  The recorder works on an audio device, \<open>Audio.Recording\<close> of expo-av, which the
  repository calls and does not contain. The device is given here by the sessions that
  were created and are not yet stopped.
\<close>

type_synonym device = "handle list"

text \<open>
  Modelled from the spec: \<open>Audio.Recording.createAsync\<close>, missing from the repository.
  The spec says that start "consumes microphone hardware exclusively (single active
  session invariant - starting while already active must be prevented or treated as
  undefined/rejected)". So on a busy microphone the call is rejected; on a free one it
  answers \<open>attempt\<close>, a new recording or a failure of its own, and a new recording is a
  session.
\<close>

definition createAsync :: "handle settled \<Rightarrow> device \<Rightarrow> handle settled \<times> device" where
  "createAsync attempt dev =
     (if dev = [] then
        (case attempt of
           Rejected \<Rightarrow> (Rejected, dev)
         | Fulfilled r \<Rightarrow> (Fulfilled r, dev @ [r]))
      else (Rejected, dev))"

text \<open>
  Modelled from the spec: \<open>stopAndUnloadAsync\<close> of a recording, missing from the
  repository. The spec says that a recording session is "created on start, destroyed
  (stopped+unloaded) on stop or segment rollover", and that a stop may fail
  (DeviceError). So the call, when it succeeds, ends the session of its recording, and
  when it throws leaves the device as it is.
\<close>

definition stopAndUnloadAsync :: "handle \<Rightarrow> unit settled \<Rightarrow> device \<Rightarrow> device" where
  "stopAndUnloadAsync r stopped dev =
     (case stopped of Rejected \<Rightarrow> dev | Fulfilled _ \<Rightarrow> removeAll r dev)"

text \<open>
  \<open>startRecording\<close> reads no hook. It awaits the permission request, the audio mode and
  \<open>createAsync\<close>; any of them may throw, which the \<open>catch\<close> of line 184 logs. Its two setter
  calls (lines 180-181) are the only effect on the hooks. The device is passed through:
  it changes only if \<open>createAsync\<close> is reached.
\<close>

definition startRecording ::
  "permission settled \<Rightarrow> unit settled \<Rightarrow> handle settled \<Rightarrow> device \<Rightarrow> home \<Rightarrow> home \<times> device" where
  "startRecording perm mode attempt dev s =
     (case perm of
        Rejected \<Rightarrow> (s, dev)
      | Fulfilled status \<Rightarrow>
          if status = Granted then
            (case mode of
               Rejected \<Rightarrow> (s, dev)
             | Fulfilled _ \<Rightarrow>
                 (case createAsync attempt dev of
                    (Rejected, dev') \<Rightarrow> (s, dev')
                  | (Fulfilled r, dev') \<Rightarrow>
                      (s\<lparr>recording := Some r, isRecording := True\<rparr>, dev')))
          else (s, dev))"

text \<open>
  \<open>stopRecording\<close> tests the \<open>recording\<close> of its render (line 192), awaits
  \<open>stopAndUnloadAsync\<close> (line 193), then appends the URI with an updater and clears the
  handle (lines 196-197). A throw of the device call is caught at line 199.
\<close>

definition stopRecording :: "home \<Rightarrow> unit settled \<Rightarrow> home \<Rightarrow> home" where
  "stopRecording v stopped s =
     (case recording v of
        None \<Rightarrow> s
      | Some r \<Rightarrow>
          (case stopped of
             Rejected \<Rightarrow> s
           | Fulfilled _ \<Rightarrow> s\<lparr>audioQueue := audioQueue s @ [getURI r], recording := None\<rparr>))"

subsection \<open>The two remote calls (lines 243-285)\<close>

text \<open>
  The body of a response is a JSON object, given by its fields. Both helpers catch every
  error of their request and return \<open>null\<close> then, so neither ever throws.
\<close>

type_synonym reply = "(string \<times> jsval) list settled"

definition field :: "(string \<times> jsval) list \<Rightarrow> string \<Rightarrow> jsval" where
  "field d k = (case map_of d k of None \<Rightarrow> Undefined | Some x \<Rightarrow> x)"

definition transcribeAudio :: "string \<Rightarrow> reply \<Rightarrow> jsval" where
  "transcribeAudio uri response =
     (case response of Fulfilled d \<Rightarrow> field d ''transcription'' | Rejected \<Rightarrow> Null)"

definition analyzeAudio :: "string \<Rightarrow> reply \<Rightarrow> jsval" where
  "analyzeAudio uri response =
     (case response of Fulfilled d \<Rightarrow> field d ''analysis'' | Rejected \<Rightarrow> Null)"

subsection \<open>The queue processor (lines 207-241)\<close>

text \<open>
  A suspended invocation of \<open>processAudioQueue\<close>, named by the await it waits at. Each
  carries \<open>currentAudio\<close> and \<open>remainingQueue\<close>, the two constants that line 213 takes
  from the queue of the render; the later ones carry the values already obtained.
\<close>

datatype task =
    Transcribing string "string list"
  | Analyzing string "string list" jsval
  | Joining string "string list" jsval jsval
  | Deleting string "string list"

fun currentAudio :: "task \<Rightarrow> string" where
  "currentAudio (Transcribing c r) = c"
| "currentAudio (Analyzing c r t) = c"
| "currentAudio (Joining c r t a) = c"
| "currentAudio (Deleting c r) = c"

fun remainingQueue :: "task \<Rightarrow> string list" where
  "remainingQueue (Transcribing c r) = r"
| "remainingQueue (Analyzing c r t) = r"
| "remainingQueue (Joining c r t a) = r"
| "remainingQueue (Deleting c r) = r"

text \<open>The external call a suspended invocation has outstanding, if any.\<close>

datatype call = PostTranscribe string | PostAnalyze string | DeleteAsync string

fun awaiting :: "task \<Rightarrow> call option" where
  "awaiting (Transcribing c r) = Some (PostTranscribe c)"
| "awaiting (Analyzing c r t) = Some (PostAnalyze c)"
| "awaiting (Joining c r t a) = None"
| "awaiting (Deleting c r) = Some (DeleteAsync c)"

text \<open>
  Lines 208-216, up to the first await: the guard, \<open>setIsProcessing(true)\<close>, the
  destructuring of the render's queue, and the call of \<open>transcribeAudio\<close>. \<open>None\<close> is
  the early return of line 209.
\<close>

definition processAudioQueue :: "home \<Rightarrow> home \<Rightarrow> (home \<times> task) option" where
  "processAudioQueue v s =
     (if audioQueue v = [] \<or> isProcessing v then None
      else Some (s\<lparr>isProcessing := True\<rparr>,
                 Transcribing (hd (audioQueue v)) (tl (audioQueue v))))"

text \<open>
  What wakes a suspended invocation: the response of a request, the turn of the scheduler
  that \<open>await Promise.all\<close> of two plain values takes, the outcome of \<open>deleteAsync\<close>, or
  an exception inside the \<open>try\<close> block (the \<open>catch\<close> of line 230).
\<close>

datatype signal = Http reply | Turn | Removed "unit settled" | Thrown

text \<open>
  The rest of the function, one await at a time. The result is \<open>None\<close> when the signal is
  not the one the invocation waits for; otherwise the new hook state and the next await,
  or no await when the function has returned.
  \<^item> line 216 resumes: the transcription is bound, \<open>analyzeAudio\<close> is called (line 217);
  \<^item> line 217 resumes: the analysis is bound, \<open>Promise.all\<close> is awaited (line 219);
  \<^item> line 219 resumes: the guarded append of lines 224-229, then \<open>finally\<close> calls
    \<open>deleteAsync\<close> (line 234);
  \<^item> line 234 resumes, fulfilled or rejected: lines 238-239.
\<close>

fun resume :: "task \<Rightarrow> signal \<Rightarrow> home \<Rightarrow> (home \<times> task option) option" where
  "resume (Transcribing c r) (Http response) s =
     Some (s, Some (Analyzing c r (transcribeAudio c response)))"
| "resume (Analyzing c r t) (Http response) s =
     Some (s, Some (Joining c r t (analyzeAudio c response)))"
| "resume (Joining c r t a) Turn s =
     Some (if truthy t
           then s\<lparr>transcriptions := transcriptions s @ [\<lparr>text' = t, analysis = a\<rparr>]\<rparr>
           else s,
           Some (Deleting c r))"
| "resume (Transcribing c r) Thrown s = Some (s, Some (Deleting c r))"
| "resume (Analyzing c r t) Thrown s = Some (s, Some (Deleting c r))"
| "resume (Joining c r t a) Thrown s = Some (s, Some (Deleting c r))"
| "resume (Deleting c r) (Removed d) s =
     Some (s\<lparr>audioQueue := r, isProcessing := False\<rparr>, None)"
| "resume _ _ s = None"

subsection \<open>The display list (lines 287-289)\<close>

definition clearRecordings :: "home \<Rightarrow> home" where
  "clearRecordings s = s\<lparr>transcriptions := []\<rparr>"

subsection \<open>The screen as a transition system\<close>

text \<open>
  The state of the running screen: the hooks, the device, the suspended invocations of
  \<open>processAudioQueue\<close>, and three histories that the program does not keep but the
  properties speak of: the external calls issued and settled so far, every segment ever
  put on the queue, and every element of the display list paired with the segment it
  came from.
\<close>

datatype logged = Issued call | Settled call

record screen =
  hook :: home
  live :: device
  tasks :: "task list"
  trace :: "logged list"
  enqueued :: "string list"
  origins :: "(string \<times> entry) list"

definition boot :: screen where
  "boot = \<lparr>hook = init, live = [], tasks = [], trace = [], enqueued = [], origins = []\<rparr>"

text \<open>
  What can happen:
  \<^item> \<open>Effect\<close>: the effect of lines 146-150 runs. Its closure is the committed render,
    which holds every update made so far, so it reads the current hooks. (Of the hooks
    it reads, an update not yet rendered when it runs can only be an append to the
    queue; the outcome is then that of \<open>Effect\<close> followed by the append.)
  \<^item> \<open>Signal i sg\<close>: the \<open>i\<close>-th suspended invocation is woken by \<open>sg\<close>.
  \<^item> \<open>Start\<close>: an invocation of \<open>startRecording\<close> reaches its setters or its catch.
  \<^item> \<open>Stop r\<close>: an invocation of \<open>stopRecording\<close> whose render held \<open>r\<close> as
    \<open>recording\<close> reaches its setters or its catch; the device call it made on \<open>r\<close>
    (line 193) has settled. Any \<open>r\<close> and either outcome are allowed, so every pattern of
    arrivals on the queue is a sequence of events.
  \<^item> \<open>Clear\<close>: the clear button is pressed.
  An event that cannot happen in the state leaves it as it is.
\<close>

datatype event =
    Effect
  | Signal nat signal
  | Start "permission settled" "unit settled" "handle settled"
  | Stop "handle option" "unit settled"
  | Clear

definition issues :: "task option \<Rightarrow> logged list" where
  "issues t = (case t of None \<Rightarrow> []
               | Some t' \<Rightarrow> (case awaiting t' of None \<Rightarrow> [] | Some c \<Rightarrow> [Issued c]))"

definition settles :: "task \<Rightarrow> logged list" where
  "settles t = (case awaiting t of None \<Rightarrow> [] | Some c \<Rightarrow> [Settled c])"

text \<open>
  The histories are read off what the functions did: \<open>grown old new\<close> is what a call
  appended to a list. A segment that \<open>stopRecording\<close> appended is entered in
  \<open>enqueued\<close>; an element that an invocation appended to the display list is entered
  in \<open>origins\<close> together with the \<open>currentAudio\<close> of that invocation.
\<close>

definition grown :: "'a list \<Rightarrow> 'a list \<Rightarrow> 'a list" where
  "grown old new = drop (length old) new"

fun step :: "event \<Rightarrow> screen \<Rightarrow> screen" where
  "step Effect g =
     (if audioQueue (hook g) \<noteq> [] \<and> \<not> isProcessing (hook g) then
        (case processAudioQueue (hook g) (hook g) of
           None \<Rightarrow> g
         | Some (s', t) \<Rightarrow>
             g\<lparr>hook := s', tasks := tasks g @ [t], trace := trace g @ issues (Some t)\<rparr>)
      else g)"
| "step (Signal i sg) g =
     (if i < length (tasks g) then
        (case resume (tasks g ! i) sg (hook g) of
           None \<Rightarrow> g
         | Some (s', next) \<Rightarrow>
             g\<lparr>hook := s',
               tasks := take i (tasks g) @ (case next of None \<Rightarrow> [] | Some t' \<Rightarrow> [t'])
                          @ drop (Suc i) (tasks g),
               trace := trace g @ settles (tasks g ! i) @ issues next,
               origins := origins g @
                  map (\<lambda>e. (currentAudio (tasks g ! i), e))
                      (grown (transcriptions (hook g)) (transcriptions s'))\<rparr>)
      else g)"
| "step (Start perm mode attempt) g =
     g\<lparr>hook := fst (startRecording perm mode attempt (live g) (hook g)),
       live := snd (startRecording perm mode attempt (live g) (hook g))\<rparr>"
| "step (Stop r stopped) g =
     g\<lparr>hook := stopRecording ((hook g)\<lparr>recording := r\<rparr>) stopped (hook g),
       live := (case r of None \<Rightarrow> live g | Some h \<Rightarrow> stopAndUnloadAsync h stopped (live g)),
       enqueued := enqueued g @
          grown (audioQueue (hook g))
                (audioQueue (stopRecording ((hook g)\<lparr>recording := r\<rparr>) stopped (hook g)))\<rparr>"
| "step Clear g = g\<lparr>hook := clearRecordings (hook g), origins := []\<rparr>"

fun run :: "event list \<Rightarrow> screen \<Rightarrow> screen" where
  "run [] g = g"
| "run (e # es) g = run es (step e g)"

subsection \<open>Invariants\<close>

text \<open>At most one invocation is suspended, and only under the busy flag.\<close>

definition single_flight :: "screen \<Rightarrow> bool" where
  "single_flight g \<longleftrightarrow>
     length (tasks g) \<le> 1 \<and> (tasks g \<noteq> [] \<longrightarrow> isProcessing (hook g))"

text \<open>An invocation is past the guarded append of lines 224-229 once it waits for the deletion.\<close>

fun appended :: "task \<Rightarrow> bool" where
  "appended (Deleting c r) = True"
| "appended _ = False"

text \<open>
  How the history \<open>E\<close> of enqueued segments splits while the processor is idle: the
  sources \<open>D\<close> of the display list lie, in order, in a front part, and the queue \<open>Q\<close>
  lies, in order, in the rest.
\<close>

definition idle_split :: "string list \<Rightarrow> string list \<Rightarrow> string list \<Rightarrow> bool" where
  "idle_split E D Q \<longleftrightarrow> (\<exists>pre post. E = pre @ post \<and> subseq D pre \<and> subseq Q post)"

text \<open>
  The same while segment \<open>c\<close> is in flight with the remainder \<open>r\<close>: the queue is \<open>c\<close>,
  then \<open>r\<close>, then what arrived since; \<open>c\<close> itself belongs to the front part as soon as
  its element may have been appended (\<open>b\<close>).
\<close>

definition busy_split ::
  "string list \<Rightarrow> string list \<Rightarrow> string list \<Rightarrow> string \<Rightarrow> string list \<Rightarrow> bool \<Rightarrow> bool" where
  "busy_split E D Q c r b \<longleftrightarrow>
     (\<exists>pre post new. E = pre @ c # post \<and> Q = c # r @ new \<and> subseq (r @ new) post
        \<and> subseq D (if b then pre @ [c] else pre))"

definition fifo :: "screen \<Rightarrow> bool" where
  "fifo g \<longleftrightarrow>
     map snd (origins g) = transcriptions (hook g) \<and>
     (case tasks g of
        [] \<Rightarrow> idle_split (enqueued g) (map fst (origins g)) (audioQueue (hook g))
      | t # ts \<Rightarrow> ts = [] \<and> isProcessing (hook g) \<and>
          busy_split (enqueued g) (map fst (origins g)) (audioQueue (hook g))
            (currentAudio t) (remainingQueue t) (appended t))"


subsection \<open>Events of the examples\<close>

text \<open>
  A segment \<open>u\<close> arrives: a \<open>stopRecording\<close> whose render holds the recording of \<open>u\<close>
  succeeds. The other events wake the only suspended invocation: a response of
  /transcribe or /analyze with one field, a failed request, the join, and the outcome of
  the deletion.
\<close>

abbreviation arrives :: "string \<Rightarrow> event" where
  "arrives u \<equiv> Stop (Some (Recording u)) (Fulfilled ())"

abbreviation transcribed :: "string \<Rightarrow> event" where
  "transcribed t \<equiv> Signal 0 (Http (Fulfilled [(''transcription'', Str t)]))"

abbreviation analysed :: "string \<Rightarrow> event" where
  "analysed a \<equiv> Signal 0 (Http (Fulfilled [(''analysis'', Str a)]))"

abbreviation unanswered :: event where
  "unanswered \<equiv> Signal 0 (Http Rejected)"

abbreviation joined :: event where
  "joined \<equiv> Signal 0 Turn"

abbreviation deleted :: event where
  "deleted \<equiv> Signal 0 (Removed (Fulfilled ()))"

abbreviation undeleted :: event where
  "undeleted \<equiv> Signal 0 (Removed Rejected)"

section \<open>What the functions leave alone\<close>

lemma grown_same [simp]: "grown xs xs = []"
  by (simp add: grown_def)

lemma grown_append [simp]: "grown xs (xs @ ys) = ys"
  by (simp add: grown_def)

lemma isProcessing_startRecording [simp]:
  "isProcessing (fst (startRecording p m a dev s)) = isProcessing s"
  by (simp add: startRecording_def createAsync_def split: settled.splits)

lemma audioQueue_startRecording [simp]:
  "audioQueue (fst (startRecording p m a dev s)) = audioQueue s"
  by (simp add: startRecording_def createAsync_def split: settled.splits)

lemma transcriptions_startRecording [simp]:
  "transcriptions (fst (startRecording p m a dev s)) = transcriptions s"
  by (simp add: startRecording_def createAsync_def split: settled.splits)

lemma isProcessing_stopRecording [simp]:
  "isProcessing (stopRecording v d s) = isProcessing s"
  by (simp add: stopRecording_def split: option.splits settled.splits)

lemma transcriptions_stopRecording [simp]:
  "transcriptions (stopRecording v d s) = transcriptions s"
  by (simp add: stopRecording_def split: option.splits settled.splits)

lemma isProcessing_clearRecordings [simp]:
  "isProcessing (clearRecordings s) = isProcessing s"
  by (simp add: clearRecordings_def)

text \<open>An invocation that goes on keeps its two constants and does not touch queue or flag.\<close>

lemma resume_next:
  assumes "resume t sg s = Some (s', Some t')"
  shows "currentAudio t' = currentAudio t" "remainingQueue t' = remainingQueue t"
    "\<not> appended t" "audioQueue s' = audioQueue s" "isProcessing s' = isProcessing s"
    "transcriptions s' = transcriptions s
       \<or> (\<exists>e. transcriptions s' = transcriptions s @ [e]) \<and> appended t'"
  using assms by (cases t; cases sg; auto split: if_splits)+

text \<open>An invocation returns only from the await of the deletion.\<close>

lemma resume_last:
  assumes "resume t sg s = Some (s', None)"
  shows "appended t" "audioQueue s' = remainingQueue t" "\<not> isProcessing s'"
    "transcriptions s' = transcriptions s"
  using assms by (cases t; cases sg; auto split: if_splits)+

section \<open>Single flight\<close>

lemma single_flight_step: "single_flight g \<Longrightarrow> single_flight (step e g)"
proof (cases e)
  case Effect
  assume "single_flight g"
  then show ?thesis using Effect
    by (auto simp: single_flight_def processAudioQueue_def)
next
  case (Signal i sg)
  assume sf: "single_flight g"
  show ?thesis
  proof (cases "i < length (tasks g)")
    case False
    then show ?thesis using sf Signal by simp
  next
    case True
    with sf obtain t where t: "tasks g = [t]" and i: "i = 0"
      by (cases "tasks g") (auto simp: single_flight_def)
    show ?thesis
    proof (cases "resume t sg (hook g)")
      case None
      then show ?thesis using sf Signal t i by simp
    next
      case (Some p)
      obtain s' nxt where p: "p = (s', nxt)" by (cases p)
      show ?thesis
      proof (cases nxt)
        case None
        then show ?thesis using Signal t i Some p by (simp add: single_flight_def)
      next
        case (Some t')
        with \<open>resume t sg (hook g) = Some p\<close> p have "isProcessing s' = isProcessing (hook g)"
          by (simp add: resume_next(5))
        then show ?thesis using sf Signal t i Some p \<open>resume t sg (hook g) = Some p\<close>
          by (simp add: single_flight_def)
      qed
    qed
  qed
next
  case (Start p m c)
  assume "single_flight g"
  then show ?thesis using Start by (simp add: single_flight_def)
next
  case (Stop r d)
  assume "single_flight g"
  then show ?thesis using Stop by (simp add: single_flight_def)
next
  case Clear
  assume "single_flight g"
  then show ?thesis using Clear by (simp add: single_flight_def)
qed

lemma single_flight_run: "single_flight g \<Longrightarrow> single_flight (run es g)"
  by (induction es arbitrary: g) (simp_all add: single_flight_step)

lemma single_flight_boot: "single_flight boot"
  by (simp add: single_flight_def boot_def)

section \<open>Order of the display list\<close>

lemma subseq_left_part: "subseq (xs @ ys) zs \<Longrightarrow> subseq xs zs"
  by (meson prefix_imp_subseq prefixI subseq_order.trans)

lemma split_begin:
  assumes "idle_split E D (c # r)" shows "busy_split E D (c # r) c r False"
proof -
  from assms obtain pre post where e: "E = pre @ post" and o: "subseq D pre"
    and p: "subseq (c # r) post"
    unfolding idle_split_def by blast
  from p obtain us vs where post: "post = us @ c # vs" and r: "subseq r vs"
    by (auto dest: list_emb_ConsD)
  have "E = (pre @ us) @ c # vs" using e post by simp
  moreover have "c # r = c # r @ []" by simp
  moreover have "subseq (r @ []) vs" using r by simp
  moreover have "subseq D (if False then (pre @ us) @ [c] else pre @ us)"
    using o by (simp add: subseq_rev_drop_many)
  ultimately show ?thesis unfolding busy_split_def by blast
qed

lemma split_enqueue_idle:
  assumes "idle_split E D Q" shows "idle_split (E @ [u]) D (Q @ [u])"
proof -
  from assms obtain pre post where "E = pre @ post" "subseq D pre" "subseq Q post"
    unfolding idle_split_def by blast
  then have "E @ [u] = pre @ (post @ [u])" "subseq D pre" "subseq (Q @ [u]) (post @ [u])"
    by simp_all
  then show ?thesis unfolding idle_split_def by blast
qed

lemma split_enqueue_busy:
  assumes "busy_split E D Q c r b" shows "busy_split (E @ [u]) D (Q @ [u]) c r b"
proof -
  from assms obtain pre post new where e: "E = pre @ c # post" and q: "Q = c # r @ new"
    and r: "subseq (r @ new) post" and o: "subseq D (if b then pre @ [c] else pre)"
    unfolding busy_split_def by blast
  from r have "subseq ((r @ new) @ [u]) (post @ [u])" by (simp only: subseq_append)
  then have "subseq (r @ (new @ [u])) (post @ [u])" by (simp only: append_assoc)
  moreover have "E @ [u] = pre @ c # (post @ [u])" using e by simp
  moreover have "Q @ [u] = c # r @ (new @ [u])" using q by simp
  ultimately show ?thesis using o unfolding busy_split_def by blast
qed

lemma split_append:
  assumes "busy_split E D Q c r False" shows "busy_split E (D @ [c]) Q c r True"
proof -
  from assms obtain pre post new where "E = pre @ c # post" "Q = c # r @ new"
    "subseq (r @ new) post" "subseq D pre"
    unfolding busy_split_def by auto
  then have "E = pre @ c # post" "Q = c # r @ new"
    "subseq (r @ new) post" "subseq (D @ [c]) (if True then pre @ [c] else pre)"
    by simp_all
  then show ?thesis unfolding busy_split_def by blast
qed

lemma split_skip:
  assumes "busy_split E D Q c r b" shows "busy_split E D Q c r True"
proof -
  from assms obtain pre post new where "E = pre @ c # post" "Q = c # r @ new"
    "subseq (r @ new) post" "subseq D (if b then pre @ [c] else pre)"
    unfolding busy_split_def by blast
  then have "E = pre @ c # post" "Q = c # r @ new"
    "subseq (r @ new) post" "subseq D (if True then pre @ [c] else pre)"
    by (simp_all add: subseq_rev_drop_many split: if_splits)
  then show ?thesis unfolding busy_split_def by blast
qed

lemma split_finish:
  assumes "busy_split E D Q c r True" shows "idle_split E D r"
proof -
  from assms obtain pre post new where "E = pre @ c # post" "Q = c # r @ new"
    "subseq (r @ new) post" "subseq D (pre @ [c])"
    unfolding busy_split_def by auto
  then have "E = (pre @ [c]) @ post" "subseq D (pre @ [c])" "subseq r post"
    by (simp_all add: subseq_left_part)
  then show ?thesis unfolding idle_split_def by blast
qed

lemma split_clear_idle: "idle_split E D Q \<Longrightarrow> idle_split E [] Q"
  unfolding idle_split_def by auto

lemma split_clear_busy: "busy_split E D Q c r b \<Longrightarrow> busy_split E [] Q c r b"
  unfolding busy_split_def by auto

lemma idle_split_subseq: "idle_split E D Q \<Longrightarrow> subseq D E"
  unfolding idle_split_def by (auto simp: subseq_rev_drop_many)

lemma busy_split_subseq:
  assumes "busy_split E D Q c r b" shows "subseq D E"
proof -
  from split_skip [OF assms] obtain pre post where "E = (pre @ [c]) @ post" "subseq D (pre @ [c])"
    unfolding busy_split_def by auto
  then show ?thesis by (simp only: subseq_rev_drop_many)
qed

lemma fifo_boot: "fifo boot"
  by (simp add: fifo_def boot_def init_def idle_split_def)

lemma fifo_Effect: assumes "fifo g" shows "fifo (step Effect g)"
proof (cases "audioQueue (hook g) \<noteq> [] \<and> \<not> isProcessing (hook g)")
  case False
  then show ?thesis using assms by auto
next
  case True
  then obtain c r where q: "audioQueue (hook g) = c # r" by (cases "audioQueue (hook g)") auto
  from True assms have idle: "tasks g = []"
    by (cases "tasks g") (auto simp: fifo_def)
  have st: "step Effect g = g\<lparr>hook := (hook g)\<lparr>isProcessing := True\<rparr>, tasks := [Transcribing c r],
                trace := trace g @ issues (Some (Transcribing c r))\<rparr>"
    using True q idle by (simp add: processAudioQueue_def)
  from assms idle q have "idle_split (enqueued g) (map fst (origins g)) (c # r)"
    and "map snd (origins g) = transcriptions (hook g)"
    by (simp_all add: fifo_def)
  then show ?thesis unfolding st fifo_def using q by (simp add: split_begin)
qed

lemma fifo_Signal: assumes "fifo g" shows "fifo (step (Signal i sg) g)"
proof (cases "i < length (tasks g)")
  case False
  then show ?thesis using assms by simp
next
  case True
  with assms obtain t where t: "tasks g = [t]" and i: "i = 0"
    by (cases "tasks g") (auto simp: fifo_def)
  from assms t have
    len: "map snd (origins g) = transcriptions (hook g)" and
    busy: "isProcessing (hook g)" and
    sp: "busy_split (enqueued g) (map fst (origins g)) (audioQueue (hook g))
            (currentAudio t) (remainingQueue t) (appended t)"
    by (simp_all add: fifo_def)
  show ?thesis
  proof (cases "resume t sg (hook g)")
    case None
    then show ?thesis using assms t i by simp
  next
    case (Some p)
    obtain s' nxt where p: "p = (s', nxt)" by (cases p)
    show ?thesis
    proof (cases nxt)
      case None
      with Some p have last: "resume t sg (hook g) = Some (s', None)" by simp
      note fin = resume_last [OF last]
      have st: "step (Signal i sg) g =
                  g\<lparr>hook := s', tasks := [], trace := trace g @ settles t @ issues None,
                    origins := origins g\<rparr>"
        using t i last fin by simp
      have "idle_split (enqueued g) (map fst (origins g)) (remainingQueue t)"
        using sp fin(1) by (simp add: split_finish)
      then show ?thesis unfolding st fifo_def using fin len by simp
    next
      case (Some t')
      with \<open>resume t sg (hook g) = Some p\<close> p
      have nx: "resume t sg (hook g) = Some (s', Some t')" by simp
      note k = resume_next [OF nx]
      let ?new = "map (\<lambda>e. (currentAudio t, e))
                      (grown (transcriptions (hook g)) (transcriptions s'))"
      have st: "step (Signal i sg) g =
                  g\<lparr>hook := s', tasks := [t'], trace := trace g @ settles t @ issues (Some t'),
                    origins := origins g @ ?new\<rparr>"
        using t i nx by simp
      from sp k(3) have sp': "busy_split (enqueued g) (map fst (origins g)) (audioQueue (hook g))
            (currentAudio t) (remainingQueue t) False" by simp
      from k(6) have new: "?new = [] \<and> transcriptions s' = transcriptions (hook g)
          \<or> map fst ?new = [currentAudio t] \<and> appended t'
            \<and> transcriptions s' = transcriptions (hook g) @ map snd ?new"
        by auto
      have "busy_split (enqueued g) (map fst (origins g) @ map fst ?new) (audioQueue (hook g))
            (currentAudio t) (remainingQueue t) (appended t')"
      proof (cases "?new = []")
        case True
        show ?thesis
        proof (cases "appended t'")
          case True
          with \<open>?new = []\<close> split_skip [OF sp'] show ?thesis by simp
        next
          case False
          with \<open>?new = []\<close> sp' show ?thesis by simp
        qed
      next
        case False
        with new have "map fst ?new = [currentAudio t]" "appended t'" by auto
        with split_append [OF sp'] show ?thesis by simp
      qed
      moreover have "map snd (origins g) @ map snd ?new = transcriptions s'"
        using new len by auto
      ultimately show ?thesis unfolding st fifo_def using k(1,2,4,5) busy by simp
    qed
  qed
qed

lemma fifo_Start: assumes "fifo g" shows "fifo (step (Start p m c) g)"
  using assms by (simp add: fifo_def split: list.splits)

lemma fifo_Clear: assumes "fifo g" shows "fifo (step Clear g)"
  using assms
  by (auto simp: fifo_def clearRecordings_def split: list.splits
           intro: split_clear_idle split_clear_busy)

lemma fifo_Stop: assumes "fifo g" shows "fifo (step (Stop h d) g)"
proof (cases "\<exists>x. h = Some x \<and> d = Fulfilled ()")
  case False
  then have "step (Stop h d) g = g\<lparr>live := live (step (Stop h d) g)\<rparr>"
    by (cases h; cases d) (simp_all add: stopRecording_def)
  moreover have "fifo (g\<lparr>live := l\<rparr>)" for l
    using assms by (simp add: fifo_def split: list.splits)
  ultimately show ?thesis by metis
next
  case True
  then obtain x where h: "h = Some x" and d: "d = Fulfilled ()" by blast
  have st: "step (Stop h d) g =
              g\<lparr>hook := (hook g)\<lparr>audioQueue := audioQueue (hook g) @ [getURI x], recording := None\<rparr>,
                live := stopAndUnloadAsync x d (live g),
                enqueued := enqueued g @ [getURI x]\<rparr>"
    using h d by (simp add: stopRecording_def)
  show ?thesis using assms unfolding st fifo_def
    by (simp add: split_enqueue_idle split_enqueue_busy split: list.splits)
qed

lemma fifo_step: "fifo g \<Longrightarrow> fifo (step e g)"
  by (cases e) (simp_all only: fifo_Effect fifo_Signal fifo_Start fifo_Stop fifo_Clear)

lemma fifo_run: "fifo g \<Longrightarrow> fifo (run es g)"
  by (induction es arbitrary: g) (simp_all add: fifo_step)

lemma fifo_subseq: "fifo g \<Longrightarrow> subseq (map fst (origins g)) (enqueued g)"
  by (auto simp: fifo_def idle_split_subseq busy_split_subseq split: list.splits)

lemma subseq_keeps_order:
  assumes "subseq xs ys" and "i < j" and "j < length xs"
  shows "\<exists>i' j'. i' < j' \<and> j' < length ys \<and> ys ! i' = xs ! i \<and> ys ! j' = xs ! j"
proof -
  have xs: "xs = take j xs @ (xs ! j # drop (Suc j) xs)"
    using assms(3) by (simp add: id_take_nth_drop)
  with assms(1) have "subseq (take j xs @ (xs ! j # drop (Suc j) xs)) ys" by simp
  then obtain us vs where ys: "ys = us @ vs" and u: "subseq (take j xs) us"
    and v: "subseq (xs ! j # drop (Suc j) xs) vs"
    by (blast dest: list_emb_appendD)
  have "xs ! i \<in> set (take j xs)"
    using assms(2,3) by (metis in_set_conv_nth length_take min.absorb2 nth_take less_imp_le_nat)
  with u have "xs ! i \<in> set us" by (auto dest: list_emb_set)
  then obtain a where a: "a < length us" "us ! a = xs ! i" by (auto simp: in_set_conv_nth)
  from v have "xs ! j \<in> set vs" by (auto dest: list_emb_set)
  then obtain b where b: "b < length vs" "vs ! b = xs ! j" by (auto simp: in_set_conv_nth)
  have "a < length us + b" "length us + b < length ys" "ys ! a = xs ! i"
    "ys ! (length us + b) = xs ! j"
    using a b ys by (simp_all add: nth_append)
  then show ?thesis by blast
qed

section \<open>One session on the device\<close>



lemma recording_stopRecording:
  "recording (stopRecording v d s) = recording s \<and> d = Rejected
   \<or> recording (stopRecording v d s) = recording s \<and> recording v = None
   \<or> recording (stopRecording v d s) = None"
  by (cases d) (simp_all add: stopRecording_def split: option.splits)





lemma run_append: "run (xs @ ys) g = run ys (run xs g)"
  by (induction xs arbitrary: g) simp_all

section \<open>The properties\<close>

text \<open>The definitions that a run on concrete events unfolds.\<close>

lemmas screen_defs = boot_def init_def stopRecording_def processAudioQueue_def issues_def
  settles_def transcribeAudio_def analyzeAudio_def field_def clearRecordings_def
  startRecording_def grown_def createAsync_def stopAndUnloadAsync_def

subsection \<open>Single flight\<close>

text \<open>
  C1. Whatever has happened since the screen was mounted, and whatever arrived on the
  queue, at most one invocation of \<open>processAudioQueue\<close> is suspended. While one is, the
  busy flag is set and the effect of lines 146-150 starts nothing. \<open>processAudioQueue\<close>
  goes past its guard only if the queue of its render is not empty and its render is
  idle, and when it suspends at its first remote call, the request to /transcribe for the
  head of that queue, it has set the busy flag.
\<close>

theorem single_flight_always:
  "length (tasks (run es boot)) \<le> 1
   \<and> (tasks (run es boot) \<noteq> [] \<longrightarrow>
        isProcessing (hook (run es boot)) \<and> step Effect (run es boot) = run es boot)
   \<and> (\<forall>s' t. processAudioQueue v s = Some (s', t) \<longrightarrow>
        audioQueue v \<noteq> [] \<and> \<not> isProcessing v \<and> isProcessing s'
        \<and> awaiting t = Some (PostTranscribe (hd (audioQueue v))))"
proof -
  have "single_flight (run es boot)"
    by (rule single_flight_run [OF single_flight_boot])
  then have "length (tasks (run es boot)) \<le> 1"
    and busy: "tasks (run es boot) \<noteq> [] \<longrightarrow> isProcessing (hook (run es boot))"
    by (simp_all add: single_flight_def)
  moreover have "isProcessing (hook g) \<longrightarrow> step Effect g = g" for g
    by simp
  moreover have "\<forall>s' t. processAudioQueue v s = Some (s', t) \<longrightarrow>
        audioQueue v \<noteq> [] \<and> \<not> isProcessing v \<and> isProcessing s'
        \<and> awaiting t = Some (PostTranscribe (hd (audioQueue v)))"
    by (auto simp: processAudioQueue_def split: if_splits)
  ultimately show ?thesis by blast
qed

text \<open>
  Two segments arrive, the second while the first is in flight: one invocation is
  suspended, on the first segment, and a further run of the effect changes nothing.
\<close>

theorem single_flight_always_witness:
  "tasks (run [arrives ''a'', Effect, arrives ''b'', Effect] boot) = [Transcribing ''a'' []]
   \<and> audioQueue (hook (run [arrives ''a'', Effect, arrives ''b'', Effect] boot)) = [''a'', ''b'']
   \<and> isProcessing (hook (run [arrives ''a'', Effect, arrives ''b'', Effect] boot))
   \<and> step Effect (run [arrives ''a'', Effect, arrives ''b'', Effect] boot)
       = run [arrives ''a'', Effect, arrives ''b'', Effect] boot
   \<and> processAudioQueue (init\<lparr>audioQueue := [''a'']\<rparr>) (init\<lparr>audioQueue := [''a'']\<rparr>)
       = Some (init\<lparr>audioQueue := [''a''], isProcessing := True\<rparr>, Transcribing ''a'' [])
   \<and> awaiting (Transcribing ''a'' []) = Some (PostTranscribe ''a'')"
  using single_flight_always [of "[arrives ''a'', Effect, arrives ''b'', Effect]"
          "init\<lparr>audioQueue := [''a'']\<rparr>" "init\<lparr>audioQueue := [''a'']\<rparr>"]
  by (simp add: screen_defs)

subsection \<open>The queue after a segment was processed\<close>

text \<open>
  C2. The function ends with \<open>setAudioQueue(remainingQueue)\<close> (line 238), and
  \<open>remainingQueue\<close> was taken from the queue of the render in which processing began. A
  segment that \<open>stopRecording\<close> appended in between is overwritten: segment \<open>b\<close> arrives
  while \<open>a\<close> is in flight, the queue is \<open>[a, b]\<close>, and when \<open>a\<close> is done the queue is
  empty. \<open>b\<close> was enqueued and is neither in the queue nor in the display list.
\<close>

theorem enqueued_in_flight_is_dropped:
  "tasks (run [arrives ''a'', Effect, arrives ''b''] boot) = [Transcribing ''a'' []]
   \<and> audioQueue (hook (run [arrives ''a'', Effect, arrives ''b''] boot)) = [''a'', ''b'']
   \<and> tasks (run [arrives ''a'', Effect, arrives ''b'', transcribed ''oi'', analysed ''calmo'',
                 joined, deleted] boot) = []
   \<and> \<not> isProcessing (hook (run [arrives ''a'', Effect, arrives ''b'', transcribed ''oi'',
                 analysed ''calmo'', joined, deleted] boot))
   \<and> enqueued (run [arrives ''a'', Effect, arrives ''b'', transcribed ''oi'', analysed ''calmo'',
                 joined, deleted] boot) = [''a'', ''b'']
   \<and> audioQueue (hook (run [arrives ''a'', Effect, arrives ''b'', transcribed ''oi'',
                 analysed ''calmo'', joined, deleted] boot)) = []
   \<and> origins (run [arrives ''a'', Effect, arrives ''b'', transcribed ''oi'', analysed ''calmo'',
                 joined, deleted] boot)
       = [(''a'', \<lparr>text' = Str ''oi'', analysis = Str ''calmo''\<rparr>)]"
  by (simp add: screen_defs)

subsection \<open>Which results give an element of the display list\<close>

text \<open>
  C3, with the text required to be non-empty. If the request to /transcribe fails,
  \<open>transcribeAudio\<close> yields \<open>null\<close> and nothing is appended, whatever the other request
  returned. If it succeeds with a non-empty text \<open>t\<close> and the request to /analyze fails,
  \<open>{text: t, analysis: null}\<close> is appended.
\<close>

theorem record_needs_nonempty_transcription:
  "transcribeAudio c Rejected = Null
   \<and> (tasks g = [Transcribing c r] \<longrightarrow>
        transcriptions (hook (run [unanswered, Signal 0 (Http rp), joined] g))
          = transcriptions (hook g))
   \<and> (tasks g = [Transcribing c r] \<and> map_of d ''transcription'' = Some (Str t) \<and> t \<noteq> [] \<longrightarrow>
        analyzeAudio c Rejected = Null
        \<and> transcriptions (hook (run [Signal 0 (Http (Fulfilled d)), unanswered, joined] g))
          = transcriptions (hook g) @ [\<lparr>text' = Str t, analysis = Null\<rparr>])"
  by (simp add: transcribeAudio_def analyzeAudio_def field_def)

text \<open>Both cases on the segment \<open>a\<close>: a lost transcription, and the text \<open>oi\<close> with a lost analysis.\<close>

theorem record_needs_nonempty_transcription_witness:
  "tasks (run [arrives ''a'', Effect] boot) = [Transcribing ''a'' []]
   \<and> transcriptions (hook (run [unanswered, analysed ''calmo'', joined]
                              (run [arrives ''a'', Effect] boot))) = []
   \<and> map_of [(''transcription'', Str ''oi'')] ''transcription'' = Some (Str ''oi'')
   \<and> ''oi'' \<noteq> []
   \<and> transcriptions (hook (run [transcribed ''oi'', unanswered, joined]
                              (run [arrives ''a'', Effect] boot)))
       = [\<lparr>text' = Str ''oi'', analysis = Null\<rparr>]"
  using record_needs_nonempty_transcription [of "''a''" "run [arrives ''a'', Effect] boot" "[]"
          "Fulfilled [(''analysis'', Str ''calmo'')]" "[(''transcription'', Str ''oi'')]" "''oi''"]
  by (simp add: screen_defs)

text \<open>
  C3 as stated fails for the empty text: the request to /transcribe succeeds with
  \<open>""\<close>, the request to /analyze fails, and no \<open>{text: "", analysis: null}\<close> is
  appended.
\<close>

theorem empty_text_and_failed_analysis_counterexample:
  "tasks (run [arrives ''a'', Effect] boot) = [Transcribing ''a'' []]
   \<and> transcribeAudio ''a'' (Fulfilled [(''transcription'', Str [])]) = Str []
   \<and> analyzeAudio ''a'' Rejected = Null
   \<and> transcriptions (hook (run [transcribed [], unanswered, joined]
                              (run [arrives ''a'', Effect] boot))) = []
   \<and> transcriptions (hook (run [transcribed [], unanswered, joined]
                              (run [arrives ''a'', Effect] boot)))
       \<noteq> transcriptions (hook (run [arrives ''a'', Effect] boot))
           @ [\<lparr>text' = Str [], analysis = Null\<rparr>]"
  by (simp add: screen_defs)

text \<open>
  C10. A response of /transcribe whose \<open>transcription\<close> is the empty string is a successful
  one, and \<open>transcribeAudio\<close> returns \<open>""\<close>. It is falsy, so the guard of line 224 skips
  the append: when the segment is done the display list is what it was, whatever /analyze
  answered.
\<close>

theorem empty_transcription_is_dropped:
  "transcribeAudio c (Fulfilled [(''transcription'', Str [])]) = Str []
   \<and> \<not> truthy (Str [])
   \<and> (tasks g = [Transcribing c r] \<longrightarrow>
        transcriptions (hook (run [transcribed [], Signal 0 (Http rp), joined,
                                   Signal 0 (Removed dl)] g)) = transcriptions (hook g)
        \<and> tasks (run [transcribed [], Signal 0 (Http rp), joined, Signal 0 (Removed dl)] g) = [])"
  by (simp add: transcribeAudio_def analyzeAudio_def field_def)

text \<open>The segment \<open>a\<close> with an empty transcription and the analysis \<open>calmo\<close>: the list stays empty.\<close>

theorem empty_transcription_is_dropped_witness:
  "tasks (run [arrives ''a'', Effect] boot) = [Transcribing ''a'' []]
   \<and> analyzeAudio ''a'' (Fulfilled [(''analysis'', Str ''calmo'')]) = Str ''calmo''
   \<and> transcriptions (hook (run [transcribed [], analysed ''calmo'', joined, deleted]
                              (run [arrives ''a'', Effect] boot))) = []
   \<and> tasks (run [transcribed [], analysed ''calmo'', joined, deleted]
               (run [arrives ''a'', Effect] boot)) = []"
  using empty_transcription_is_dropped [of "''a''" "run [arrives ''a'', Effect] boot" "[]"
          "Fulfilled [(''analysis'', Str ''calmo'')]" "Fulfilled ()"]
  by (simp add: screen_defs)

subsection \<open>The two remote calls of a segment\<close>

text \<open>
  C5. Line 216 awaits \<open>transcribeAudio\<close> before line 217 calls \<open>analyzeAudio\<close>. After
  processing of \<open>a\<close> began, the only call issued is the request to /transcribe; the
  request to /analyze is issued when the first has settled. The two are never outstanding
  together.
\<close>

theorem analyze_issued_after_transcribe_settles:
  "tasks (run [arrives ''a'', Effect] boot) = [Transcribing ''a'' []]
   \<and> trace (run [arrives ''a'', Effect] boot) = [Issued (PostTranscribe ''a'')]
   \<and> Issued (PostAnalyze ''a'') \<notin> set (trace (run [arrives ''a'', Effect] boot))
   \<and> tasks (run [arrives ''a'', Effect, transcribed ''oi''] boot)
       = [Analyzing ''a'' [] (Str ''oi'')]
   \<and> trace (run [arrives ''a'', Effect, transcribed ''oi''] boot)
       = [Issued (PostTranscribe ''a''), Settled (PostTranscribe ''a''),
          Issued (PostAnalyze ''a'')]"
  by (simp add: screen_defs)

subsection \<open>Cleanup\<close>

text \<open>
  C7. Processing starts on an idle screen whose queue is \<open>c\<close> followed by \<open>r\<close>. However
  the \<open>try\<close> block ends (both requests answered or failed, or an exception at any of its
  three awaits), the invocation then waits for \<open>deleteAsync\<close> of \<open>c\<close>, which it has
  called. Whether the deletion is fulfilled or rejected, the queue is then \<open>r\<close>, the
  queue of the beginning without its head, the busy flag is cleared, and the invocation
  has returned. The last step does so in any state of the hooks.
\<close>

theorem cleanup_is_never_fatal:
  "resume (Deleting c r) (Removed dl) s = Some (s\<lparr>audioQueue := r, isProcessing := False\<rparr>, None)
   \<and> (tasks g = [] \<and> \<not> isProcessing (hook g) \<and> audioQueue (hook g) = c # r
        \<and> es \<in> {[Signal 0 (Http rp1), Signal 0 (Http rp2), joined],
                  [Signal 0 (Http rp1), Signal 0 (Http rp2), Signal 0 Thrown],
                  [Signal 0 (Http rp1), Signal 0 Thrown],
                  [Signal 0 Thrown]} \<longrightarrow>
        tasks (run (Effect # es) g) = [Deleting c r]
        \<and> audioQueue (hook (run (Effect # es) g)) = c # r
        \<and> Issued (DeleteAsync c) \<in> set (trace (run (Effect # es) g))
        \<and> tasks (run (Effect # es @ [Signal 0 (Removed dl)]) g) = []
        \<and> audioQueue (hook (run (Effect # es @ [Signal 0 (Removed dl)]) g)) = r
        \<and> \<not> isProcessing (hook (run (Effect # es @ [Signal 0 (Removed dl)]) g)))"
proof -
  have last: "resume (Deleting c r) (Removed dl) s
                = Some (s\<lparr>audioQueue := r, isProcessing := False\<rparr>, None)"
    by simp
  have body: "tasks (run (Effect # es) g) = [Deleting c r]
              \<and> audioQueue (hook (run (Effect # es) g)) = c # r
              \<and> Issued (DeleteAsync c) \<in> set (trace (run (Effect # es) g))"
    if "tasks g = []" and "\<not> isProcessing (hook g)" and "audioQueue (hook g) = c # r"
      and "es \<in> {[Signal 0 (Http rp1), Signal 0 (Http rp2), joined],
                  [Signal 0 (Http rp1), Signal 0 (Http rp2), Signal 0 Thrown],
                  [Signal 0 (Http rp1), Signal 0 Thrown],
                  [Signal 0 Thrown]}"
    using that by (auto simp: issues_def settles_def processAudioQueue_def)
  have fin: "tasks (step (Signal 0 (Removed dl)) g') = []
             \<and> audioQueue (hook (step (Signal 0 (Removed dl)) g')) = r
             \<and> \<not> isProcessing (hook (step (Signal 0 (Removed dl)) g'))"
    if "tasks g' = [Deleting c r]" for g'
    using that by simp
  have "run (Effect # es @ [Signal 0 (Removed dl)]) g
          = step (Signal 0 (Removed dl)) (run (Effect # es) g)"
    using run_append [of "Effect # es" "[Signal 0 (Removed dl)]" g] by simp
  then show ?thesis using last body fin [of "run (Effect # es) g"] by metis
qed

text \<open>
  With \<open>[a, b]\<close> queued: the first request fails, the second await throws, the deletion
  fails. The queue is \<open>[b]\<close> and the processor is idle.
\<close>

theorem cleanup_is_never_fatal_witness:
  "tasks (run [arrives ''a'', arrives ''b''] boot) = []
   \<and> \<not> isProcessing (hook (run [arrives ''a'', arrives ''b''] boot))
   \<and> audioQueue (hook (run [arrives ''a'', arrives ''b''] boot)) = [''a'', ''b'']
   \<and> tasks (run (Effect # [unanswered, Signal 0 Thrown]) (run [arrives ''a'', arrives ''b''] boot))
       = [Deleting ''a'' [''b'']]
   \<and> Issued (DeleteAsync ''a'')
       \<in> set (trace (run (Effect # [unanswered, Signal 0 Thrown])
                        (run [arrives ''a'', arrives ''b''] boot)))
   \<and> tasks (run (Effect # [unanswered, Signal 0 Thrown] @ [undeleted])
               (run [arrives ''a'', arrives ''b''] boot)) = []
   \<and> audioQueue (hook (run (Effect # [unanswered, Signal 0 Thrown] @ [undeleted])
                          (run [arrives ''a'', arrives ''b''] boot))) = [''b'']
   \<and> \<not> isProcessing (hook (run (Effect # [unanswered, Signal 0 Thrown] @ [undeleted])
                             (run [arrives ''a'', arrives ''b''] boot)))"
  using cleanup_is_never_fatal [of "''a''" "[''b'']" Rejected _
          "run [arrives ''a'', arrives ''b''] boot" "[unanswered, Signal 0 Thrown]"
          Rejected]
  by (simp add: screen_defs)

subsection \<open>Order of the display list\<close>

text \<open>
  C8. In every execution the display list is, element by element and in its order, the
  list of the elements that the invocations appended, each with the segment its
  invocation was processing; and these segments, read in display order, occur in the same
  order in the history of enqueued segments. So for two elements of the display list, the
  first before the second, their segments stand at two places of the history, the first
  before the second.
\<close>

theorem display_keeps_enqueue_order:
  "map snd (origins (run es boot)) = transcriptions (hook (run es boot))
   \<and> subseq (map fst (origins (run es boot))) (enqueued (run es boot))
   \<and> (\<forall>i j. i < j \<and> j < length (transcriptions (hook (run es boot))) \<longrightarrow>
        (\<exists>i' j'. i' < j' \<and> j' < length (enqueued (run es boot))
           \<and> origins (run es boot) ! i
               = (enqueued (run es boot) ! i', transcriptions (hook (run es boot)) ! i)
           \<and> origins (run es boot) ! j
               = (enqueued (run es boot) ! j', transcriptions (hook (run es boot)) ! j)))"
proof -
  let ?g = "run es boot"
  have f: "fifo ?g" by (rule fifo_run [OF fifo_boot])
  then have m: "map snd (origins ?g) = transcriptions (hook ?g)"
    by (simp add: fifo_def)
  from f have s: "subseq (map fst (origins ?g)) (enqueued ?g)"
    by (rule fifo_subseq)
  have "\<exists>i' j'. i' < j' \<and> j' < length (enqueued ?g)
           \<and> origins ?g ! i = (enqueued ?g ! i', transcriptions (hook ?g) ! i)
           \<and> origins ?g ! j = (enqueued ?g ! j', transcriptions (hook ?g) ! j)"
    if ij: "i < j" "j < length (transcriptions (hook ?g))" for i j
  proof -
    from m ij have len: "j < length (origins ?g)" "i < length (origins ?g)"
      by (metis length_map, metis length_map less_trans)
    then have "j < length (map fst (origins ?g))" by simp
    from subseq_keeps_order [OF s ij(1) this] obtain i' j' where
      "i' < j'" "j' < length (enqueued ?g)"
      "enqueued ?g ! i' = map fst (origins ?g) ! i" "enqueued ?g ! j' = map fst (origins ?g) ! j"
      by blast
    moreover have "transcriptions (hook ?g) ! i = snd (origins ?g ! i)"
      "transcriptions (hook ?g) ! j = snd (origins ?g ! j)"
      using len m by (metis nth_map)+
    ultimately have "i' < j'" "j' < length (enqueued ?g)"
      "origins ?g ! i = (enqueued ?g ! i', transcriptions (hook ?g) ! i)"
      "origins ?g ! j = (enqueued ?g ! j', transcriptions (hook ?g) ! j)"
      using len by (simp_all add: prod_eq_iff)
    then show ?thesis by blast
  qed
  with m s show ?thesis by blast
qed

text \<open>
  Segments \<open>a\<close> and \<open>b\<close> are enqueued and processed in turn; the element of \<open>a\<close> (\<open>oi\<close>)
  stands before the element of \<open>b\<close> (\<open>sim\<close>) in the display list.
\<close>

theorem display_keeps_enqueue_order_witness:
  "enqueued (run [arrives ''a'', arrives ''b'', Effect, transcribed ''oi'', unanswered, joined,
                  deleted, Effect, transcribed ''sim'', unanswered, joined] boot) = [''a'', ''b'']
   \<and> origins (run [arrives ''a'', arrives ''b'', Effect, transcribed ''oi'', unanswered, joined,
                  deleted, Effect, transcribed ''sim'', unanswered, joined] boot)
       = [(''a'', \<lparr>text' = Str ''oi'', analysis = Null\<rparr>),
          (''b'', \<lparr>text' = Str ''sim'', analysis = Null\<rparr>)]
   \<and> transcriptions (hook (run [arrives ''a'', arrives ''b'', Effect, transcribed ''oi'',
                  unanswered, joined, deleted, Effect, transcribed ''sim'', unanswered, joined]
                  boot))
       = [\<lparr>text' = Str ''oi'', analysis = Null\<rparr>, \<lparr>text' = Str ''sim'', analysis = Null\<rparr>]
   \<and> (0::nat) < 1
   \<and> 1 < length (transcriptions (hook (run [arrives ''a'', arrives ''b'', Effect,
                  transcribed ''oi'', unanswered, joined, deleted, Effect, transcribed ''sim'',
                  unanswered, joined] boot)))"
  using display_keeps_enqueue_order [of "[arrives ''a'', arrives ''b'', Effect,
          transcribed ''oi'', unanswered, joined, deleted, Effect, transcribed ''sim'',
          unanswered, joined]"]
  by (simp add: screen_defs)

subsection \<open>The recorder\<close>



text \<open>
  C6, with the device call required to succeed. If the render of \<open>stopRecording\<close> holds a
  handle and \<open>stopAndUnloadAsync\<close> succeeds, the URI of the handle is appended at the
  tail of the queue and the handle is set to null; if \<open>stopAndUnloadAsync\<close> throws, the
  error is logged and nothing changes. If the render holds no handle, nothing changes.
\<close>

theorem stopRecording_effect:
  "(recording v = Some h \<longrightarrow>
      stopRecording v (Fulfilled ()) s
        = s\<lparr>audioQueue := audioQueue s @ [getURI h], recording := None\<rparr>
      \<and> stopRecording v Rejected s = s)
   \<and> (recording v = None \<longrightarrow> stopRecording v stopped s = s)"
  by (simp add: stopRecording_def)

text \<open>A stop of \<open>b\<close> behind a queued \<open>a\<close>, and a stop with nothing active.\<close>

theorem stopRecording_effect_witness:
  "recording (init\<lparr>recording := Some (Recording ''b'')\<rparr>) = Some (Recording ''b'')
   \<and> stopRecording (init\<lparr>recording := Some (Recording ''b'')\<rparr>) (Fulfilled ())
        (init\<lparr>recording := Some (Recording ''b''), audioQueue := [''a'']\<rparr>)
       = init\<lparr>recording := None, audioQueue := [''a'', ''b'']\<rparr>
   \<and> recording init = None
   \<and> stopRecording init (Fulfilled ()) (init\<lparr>audioQueue := [''a'']\<rparr>)
       = init\<lparr>audioQueue := [''a'']\<rparr>"
  using stopRecording_effect [of "init\<lparr>recording := Some (Recording ''b'')\<rparr>" "Recording ''b''"
          "init\<lparr>recording := Some (Recording ''b''), audioQueue := [''a'']\<rparr>"]
        stopRecording_effect [of init _ "init\<lparr>audioQueue := [''a'']\<rparr>" "Fulfilled ()"]
  by (simp add: init_def)

text \<open>
  C6 as stated fails when the device call throws: the recording \<open>b\<close> is active, yet the
  queue stays empty and the handle stays.
\<close>

theorem stopRecording_device_failure_counterexample:
  "recording (init\<lparr>recording := Some (Recording ''b''), isRecording := True\<rparr>)
     = Some (Recording ''b'')
   \<and> audioQueue (stopRecording (init\<lparr>recording := Some (Recording ''b''), isRecording := True\<rparr>)
        Rejected (init\<lparr>recording := Some (Recording ''b''), isRecording := True\<rparr>)) = []
   \<and> recording (stopRecording (init\<lparr>recording := Some (Recording ''b''), isRecording := True\<rparr>)
        Rejected (init\<lparr>recording := Some (Recording ''b''), isRecording := True\<rparr>))
       = Some (Recording ''b'')"
  by (simp add: stopRecording_def init_def)

subsection \<open>Clearing the display list\<close>

text \<open>
  C9. \<open>clearRecordings\<close> empties the display list in every state and leaves the queue, the
  busy flag, the handle and \<open>isRecording\<close> as they are. On the screen it leaves the
  suspended invocations, their calls and the history of the queue untouched, and an
  invocation that reaches its append after the clear still appends its element, which is
  then the only one.
\<close>

theorem clearRecordings_only_empties_display:
  "transcriptions (clearRecordings s) = []
   \<and> audioQueue (clearRecordings s) = audioQueue s
   \<and> isProcessing (clearRecordings s) = isProcessing s
   \<and> recording (clearRecordings s) = recording s
   \<and> isRecording (clearRecordings s) = isRecording s
   \<and> hook (step Clear g) = clearRecordings (hook g)
   \<and> tasks (step Clear g) = tasks g
   \<and> trace (step Clear g) = trace g
   \<and> enqueued (step Clear g) = enqueued g
   \<and> (i < length (tasks g) \<and> tasks g ! i = Joining c r t a \<and> truthy t \<longrightarrow>
        transcriptions (hook (step (Signal i Turn) (step Clear g)))
          = [\<lparr>text' = t, analysis = a\<rparr>])"
  by (simp add: clearRecordings_def)

text \<open>
  The element of \<open>a\<close> is shown and \<open>b\<close> waits to be joined: the clear empties the list,
  \<open>b\<close> stays suspended, and its element is appended afterwards.
\<close>

theorem clearRecordings_only_empties_display_witness:
  "tasks (run [arrives ''a'', arrives ''b'', Effect, transcribed ''oi'', unanswered, joined,
               deleted, Effect, transcribed ''sim'', unanswered] boot)
     = [Joining ''b'' [] (Str ''sim'') Null]
   \<and> transcriptions (hook (run [arrives ''a'', arrives ''b'', Effect, transcribed ''oi'',
               unanswered, joined, deleted, Effect, transcribed ''sim'', unanswered] boot))
       = [\<lparr>text' = Str ''oi'', analysis = Null\<rparr>]
   \<and> truthy (Str ''sim'')
   \<and> transcriptions (hook (step Clear (run [arrives ''a'', arrives ''b'', Effect,
               transcribed ''oi'', unanswered, joined, deleted, Effect, transcribed ''sim'',
               unanswered] boot))) = []
   \<and> tasks (step Clear (run [arrives ''a'', arrives ''b'', Effect, transcribed ''oi'',
               unanswered, joined, deleted, Effect, transcribed ''sim'', unanswered] boot))
       = [Joining ''b'' [] (Str ''sim'') Null]
   \<and> transcriptions (hook (step joined (step Clear (run [arrives ''a'', arrives ''b'', Effect,
               transcribed ''oi'', unanswered, joined, deleted, Effect, transcribed ''sim'',
               unanswered] boot))))
       = [\<lparr>text' = Str ''sim'', analysis = Null\<rparr>]"
  using clearRecordings_only_empties_display [of
          "hook (run [arrives ''a'', arrives ''b'', Effect, transcribed ''oi'', unanswered,
                      joined, deleted, Effect, transcribed ''sim'', unanswered] boot)"
          "run [arrives ''a'', arrives ''b'', Effect, transcribed ''oi'', unanswered, joined,
                deleted, Effect, transcribed ''sim'', unanswered] boot"
          0 "''b''" "[]" "Str ''sim''" Null]
  by (simp add: screen_defs)

end
